theory Spec2Isabelle
  imports Main "HOL-Library.Multiset"
begin

section \<open>The class \<open>ThreadsafeQueue<T>\<close> of ThreadsafeQueue.cpp\<close>

text \<open>
  The element type \<open>T\<close> is a type variable \<open>'a\<close>; copying an element is the identity on
  values. A \<open>std::queue<T>\<close> is the list of its elements, front first: \<open>empty()\<close> is
  \<open>xs = []\<close>, \<open>front()\<close> is \<open>hd xs\<close>, \<open>pop()\<close> is \<open>tl xs\<close> and \<open>push(v)\<close> is \<open>xs @ [v]\<close>.
  The source calls \<open>front()\<close> and \<open>pop()\<close> only behind its own emptiness test, and the
  model keeps that test. Memory is unbounded: \<open>std::bad_alloc\<close> is outside the model.
\<close>

subsection \<open>Data\<close>

text \<open>\<open>struct empty_queue : std::exception\<close> (lines 35-41): the only exception thrown.\<close>

datatype error = empty_queue

text \<open>
  \<open>std::shared_ptr<T>\<close>: either null, or the owner of storage made by
  \<open>std::make_shared<T>(x)\<close>, which holds a copy of \<open>x\<close>.
\<close>

datatype 'a shared_ptr = nullptr | make_shared 'a

text \<open>
  The two data members (lines 50-51). \<open>m\<close> is the \<open>std::mutex\<close>: \<open>True\<close> while some
  \<open>lock_guard\<close> owns it.
\<close>

record 'a ThreadsafeQueue =
  m :: bool
  theQueue :: "'a list"

subsection \<open>The mutex\<close>

text \<open>
  \<open>std::lock_guard<std::mutex> lock(m)\<close> waits until the mutex is free and then owns it;
  the guard's destructor releases it when the member function is left, by \<open>return\<close> or by
  \<open>throw\<close>. A caller that finds the mutex owned does not get past the guard: that is the
  value \<open>None\<close>.
\<close>

definition lock_guard :: "'a ThreadsafeQueue \<Rightarrow> 'a ThreadsafeQueue option" where
  "lock_guard q = (if m q then None else Some (q\<lparr>m := True\<rparr>))"

definition unlock :: "'a ThreadsafeQueue \<Rightarrow> 'a ThreadsafeQueue" where
  "unlock q = q\<lparr>m := False\<rparr>"

subsection \<open>Constructors\<close>

text \<open>\<open>ThreadsafeQueue(){}\<close> (line 53): both members default-constructed.\<close>

definition ThreadsafeQueue_default :: "'a ThreadsafeQueue" where
  "ThreadsafeQueue_default = \<lparr>m = False, theQueue = []\<rparr>"

text \<open>
  \<open>ThreadsafeQueue(const ThreadsafeQueue& other)\<close> (lines 55-60): the members of the new
  object are default-constructed, the guard takes \<open>other.m\<close>, the body assigns
  \<open>theQueue = other.theQueue\<close>, and the guard releases \<open>other.m\<close>. The result is the new
  object together with \<open>other\<close> as the call leaves it.
\<close>

definition ThreadsafeQueue_copy ::
    "'a ThreadsafeQueue \<Rightarrow> ('a ThreadsafeQueue \<times> 'a ThreadsafeQueue) option" where
  "ThreadsafeQueue_copy other =
     (case lock_guard other of
        None \<Rightarrow> None
      | Some other1 \<Rightarrow>
          let this = ThreadsafeQueue_default;
              this1 = this\<lparr>theQueue := theQueue other1\<rparr>
          in Some (this1, unlock other1))"

subsection \<open>Member functions, one call run to its end\<close>

text \<open>\<open>bool empty() const\<close> (lines 66-70).\<close>

definition empty_q :: "'a ThreadsafeQueue \<Rightarrow> (bool \<times> 'a ThreadsafeQueue) option" where
  "empty_q q =
     (case lock_guard q of
        None \<Rightarrow> None
      | Some q1 \<Rightarrow> Some (theQueue q1 = [], unlock q1))"

text \<open>
  \<open>void pop(T& value)\<close> (lines 73-79). The result is the outcome (\<open>Inl\<close> the exception
  thrown, \<open>Inr ()\<close> a normal return), what the caller's \<open>value\<close> holds afterwards, and the
  queue afterwards.
\<close>

definition pop_ref ::
    "'a ThreadsafeQueue \<Rightarrow> 'a \<Rightarrow> ((error + unit) \<times> 'a \<times> 'a ThreadsafeQueue) option" where
  "pop_ref q value =
     (case lock_guard q of
        None \<Rightarrow> None
      | Some q1 \<Rightarrow>
          if theQueue q1 = [] then Some (Inl empty_queue, value, unlock q1)
          else
            let value1 = hd (theQueue q1);
                q2 = q1\<lparr>theQueue := tl (theQueue q1)\<rparr>
            in Some (Inr (), value1, unlock q2))"

text \<open>\<open>std::shared_ptr<T> pop()\<close> (lines 81-88).\<close>

definition pop_ptr ::
    "'a ThreadsafeQueue \<Rightarrow> ((error + 'a shared_ptr) \<times> 'a ThreadsafeQueue) option" where
  "pop_ptr q =
     (case lock_guard q of
        None \<Rightarrow> None
      | Some q1 \<Rightarrow>
          if theQueue q1 = [] then Some (Inl empty_queue, unlock q1)
          else
            let res = make_shared (hd (theQueue q1));
                q2 = q1\<lparr>theQueue := tl (theQueue q1)\<rparr>
            in Some (Inr res, unlock q2))"

text \<open>\<open>void push(T new_value)\<close> (lines 90-94): no \<open>throw\<close> in it.\<close>

definition push :: "'a ThreadsafeQueue \<Rightarrow> 'a \<Rightarrow> 'a ThreadsafeQueue option" where
  "push q new_value =
     (case lock_guard q of
        None \<Rightarrow> None
      | Some q1 \<Rightarrow>
          let q2 = q1\<lparr>theQueue := theQueue q1 @ [new_value]\<rparr>
          in Some (unlock q2))"

subsection \<open>A caller: calls made one after the other by one thread\<close>

text \<open>
  The public member functions. \<open>Pop_ref v\<close> is \<open>pop(value)\<close> with \<open>v\<close> in the caller's
  \<open>value\<close> before the call. The deleted \<open>operator=\<close> (line 62) cannot be called and has no
  constructor here.
\<close>

datatype 'a call = Empty | Pop_ref 'a | Pop_ptr | Push 'a

text \<open>
  What a call hands back: the \<open>bool\<close> of \<open>empty\<close>, the content of \<open>value\<close> after
  \<open>pop(value)\<close>, the pointer of \<open>pop()\<close>, nothing for \<open>push\<close>; \<open>Inl\<close> when it throws.
\<close>

datatype 'a ret = Ret_bool bool | Ret_ref 'a | Ret_ptr "'a shared_ptr" | Ret_void

fun exec_call ::
    "'a call \<Rightarrow> 'a ThreadsafeQueue \<Rightarrow> ((error + 'a ret) \<times> 'a ThreadsafeQueue) option" where
  "exec_call Empty q =
     (case empty_q q of None \<Rightarrow> None | Some (b, q') \<Rightarrow> Some (Inr (Ret_bool b), q'))"
| "exec_call (Pop_ref value) q =
     (case pop_ref q value of
        None \<Rightarrow> None
      | Some (Inl e, value', q') \<Rightarrow> Some (Inl e, q')
      | Some (Inr u, value', q') \<Rightarrow> Some (Inr (Ret_ref value'), q'))"
| "exec_call Pop_ptr q =
     (case pop_ptr q of
        None \<Rightarrow> None
      | Some (Inl e, q') \<Rightarrow> Some (Inl e, q')
      | Some (Inr p, q') \<Rightarrow> Some (Inr (Ret_ptr p), q'))"
| "exec_call (Push new_value) q =
     (case push q new_value of None \<Rightarrow> None | Some q' \<Rightarrow> Some (Inr Ret_void, q'))"

text \<open>
  A list of calls run in order; a thrown \<open>empty_queue\<close> is caught by the caller, recorded,
  and the next call is made.
\<close>

fun run_calls ::
    "'a call list \<Rightarrow> 'a ThreadsafeQueue \<Rightarrow> ((error + 'a ret) list \<times> 'a ThreadsafeQueue) option" where
  "run_calls [] q = Some ([], q)"
| "run_calls (c # cs) q =
     (case exec_call c q of
        None \<Rightarrow> None
      | Some (r, q') \<Rightarrow>
          (case run_calls cs q' of None \<Rightarrow> None | Some (rs, q'') \<Rightarrow> Some (r # rs, q'')))"

text \<open>The value a successful remove gave its caller.\<close>

fun removed :: "(error + 'a ret) \<Rightarrow> 'a list" where
  "removed (Inr (Ret_ref v)) = [v]"
| "removed (Inr (Ret_ptr (make_shared v))) = [v]"
| "removed r = []"

fun is_remove :: "'a call \<Rightarrow> bool" where
  "is_remove (Pop_ref v) = True"
| "is_remove Pop_ptr = True"
| "is_remove c = False"

fun is_push :: "'a call \<Rightarrow> bool" where
  "is_push (Push v) = True"
| "is_push c = False"

text \<open>A call that was a remove and returned normally.\<close>

fun remove_succeeded :: "'a call \<times> (error + 'a ret) \<Rightarrow> bool" where
  "remove_succeeded (c, Inr r) = is_remove c"
| "remove_succeeded (c, Inl e) = False"

subsection \<open>Several queue objects\<close>

text \<open>
  Objects of the class occupy storage at distinct addresses; each object has its own
  \<open>m\<close> and its own \<open>theQueue\<close>. A member function called on the object at address \<open>a\<close>
  works on the members of that object. There is no result (\<open>None\<close>) when no object
  lives at \<open>a\<close>, or when the call does not get past its guard.
\<close>

type_synonym addr = nat

type_synonym 'a storage = "addr \<Rightarrow> 'a ThreadsafeQueue option"

definition call_at ::
    "'a storage \<Rightarrow> addr \<Rightarrow> 'a call \<Rightarrow> ((error + 'a ret) \<times> 'a storage) option" where
  "call_at s a c =
     (case s a of
        None \<Rightarrow> None
      | Some q \<Rightarrow>
          (case exec_call c q of None \<Rightarrow> None | Some (r, q') \<Rightarrow> Some (r, s(a \<mapsto> q'))))"

text \<open>
  The copy constructor building a new object at the unused address \<open>this\<close> from the
  object at \<open>other\<close>.
\<close>

definition copy_at :: "'a storage \<Rightarrow> addr \<Rightarrow> addr \<Rightarrow> 'a storage option" where
  "copy_at s this other =
     (case s this of
        Some q \<Rightarrow> None
      | None \<Rightarrow>
          (case s other of
             None \<Rightarrow> None
           | Some src \<Rightarrow>
               (case ThreadsafeQueue_copy src of
                  None \<Rightarrow> None
                | Some (this1, src1) \<Rightarrow> Some (s(other \<mapsto> src1, this \<mapsto> this1)))))"

text \<open>Calls made one after the other, each on the object at the address given with it.\<close>

fun run_at ::
    "'a storage \<Rightarrow> (addr \<times> 'a call) list \<Rightarrow> ((error + 'a ret) list \<times> 'a storage) option" where
  "run_at s [] = Some ([], s)"
| "run_at s ((a, c) # acs) =
     (case call_at s a c of
        None \<Rightarrow> None
      | Some (r, s') \<Rightarrow>
          (case run_at s' acs of None \<Rightarrow> None | Some (rs, s'') \<Rightarrow> Some (r # rs, s'')))"

text \<open>Of such calls, those made on the object at \<open>a\<close>, and what they returned.\<close>

definition calls_of :: "addr \<Rightarrow> (addr \<times> 'a call) list \<Rightarrow> 'a call list" where
  "calls_of a acs = map snd (filter (\<lambda>ac. fst ac = a) acs)"

definition results_of :: "addr \<Rightarrow> (addr \<times> 'a call) list \<Rightarrow> 'b list \<Rightarrow> 'b list" where
  "results_of a acs rs = map snd (filter (\<lambda>acr. fst (fst acr) = a) (zip acs rs))"

subsection \<open>Several threads: the member functions statement by statement\<close>

text \<open>
  Threads share one queue object and run its member functions at the same time. The
  model of a run is an interleaving of the statements of the threads (the semantics
  C++ gives a program without data races): one step of a thread is one statement of
  the member function it is in. The guard of the first line is a step that can only be
  taken while \<open>m\<close> is free; no other step can be taken by a thread that waits there.

  A \<open>frame\<close> says where a thread stands: outside every member function (\<open>Idle\<close>), or in
  a member function before the statement of the source line named. A frame of
  \<open>pop(value)\<close> carries what the caller's \<open>value\<close> holds, a frame of \<open>pop()\<close> the local
  \<open>res\<close> once it is made, a frame of \<open>push\<close> the parameter \<open>new_value\<close>, and \<open>Empty_70\<close>
  the value to return. The frames \<open>Pop_ref_throw\<close> and \<open>Pop_ptr_throw\<close> are those of the
  \<open>throw empty_queue()\<close> of lines 76 and 84 under way: the guard is still to be destroyed.
\<close>

datatype 'a frame =
    Idle
  | Empty_68 | Empty_69 | Empty_70 bool
  | Pop_ref_75 'a | Pop_ref_76 'a | Pop_ref_throw 'a | Pop_ref_77 'a | Pop_ref_78 'a | Pop_ref_79 'a
  | Pop_ptr_83 | Pop_ptr_84 | Pop_ptr_throw | Pop_ptr_85
  | Pop_ptr_86 "'a shared_ptr" | Pop_ptr_87 "'a shared_ptr"
  | Push_92 'a | Push_93 'a | Push_94 'a

text \<open>Entering a member function.\<close>

fun enter :: "'a call \<Rightarrow> 'a frame" where
  "enter Empty = Empty_68"
| "enter (Pop_ref value) = Pop_ref_75 value"
| "enter Pop_ptr = Pop_ptr_83"
| "enter (Push new_value) = Push_92 new_value"

text \<open>
  One statement. The result is the next frame, what the call hands to its caller if
  this statement leaves the member function, and the queue; \<open>None\<close> when the thread
  cannot take the step.
\<close>

fun step_frame ::
    "'a frame \<Rightarrow> 'a ThreadsafeQueue
       \<Rightarrow> ('a frame \<times> (error + 'a ret) option \<times> 'a ThreadsafeQueue) option" where
  "step_frame Idle q = None"
| "step_frame Empty_68 q =
     (case lock_guard q of None \<Rightarrow> None | Some q1 \<Rightarrow> Some (Empty_69, None, q1))"
| "step_frame Empty_69 q = Some (Empty_70 (theQueue q = []), None, q)"
| "step_frame (Empty_70 b) q = Some (Idle, Some (Inr (Ret_bool b)), unlock q)"
| "step_frame (Pop_ref_75 value) q =
     (case lock_guard q of None \<Rightarrow> None | Some q1 \<Rightarrow> Some (Pop_ref_76 value, None, q1))"
| "step_frame (Pop_ref_76 value) q =
     (if theQueue q = [] then Some (Pop_ref_throw value, None, q)
      else Some (Pop_ref_77 value, None, q))"
| "step_frame (Pop_ref_throw value) q = Some (Idle, Some (Inl empty_queue), unlock q)"
| "step_frame (Pop_ref_77 value) q = Some (Pop_ref_78 (hd (theQueue q)), None, q)"
| "step_frame (Pop_ref_78 value) q =
     Some (Pop_ref_79 value, None, q\<lparr>theQueue := tl (theQueue q)\<rparr>)"
| "step_frame (Pop_ref_79 value) q = Some (Idle, Some (Inr (Ret_ref value)), unlock q)"
| "step_frame Pop_ptr_83 q =
     (case lock_guard q of None \<Rightarrow> None | Some q1 \<Rightarrow> Some (Pop_ptr_84, None, q1))"
| "step_frame Pop_ptr_84 q =
     (if theQueue q = [] then Some (Pop_ptr_throw, None, q) else Some (Pop_ptr_85, None, q))"
| "step_frame Pop_ptr_throw q = Some (Idle, Some (Inl empty_queue), unlock q)"
| "step_frame Pop_ptr_85 q = Some (Pop_ptr_86 (make_shared (hd (theQueue q))), None, q)"
| "step_frame (Pop_ptr_86 res) q =
     Some (Pop_ptr_87 res, None, q\<lparr>theQueue := tl (theQueue q)\<rparr>)"
| "step_frame (Pop_ptr_87 res) q = Some (Idle, Some (Inr (Ret_ptr res)), unlock q)"
| "step_frame (Push_92 new_value) q =
     (case lock_guard q of None \<Rightarrow> None | Some q1 \<Rightarrow> Some (Push_93 new_value, None, q1))"
| "step_frame (Push_93 new_value) q =
     Some (Push_94 new_value, None, q\<lparr>theQueue := theQueue q @ [new_value]\<rparr>)"
| "step_frame (Push_94 new_value) q = Some (Idle, Some (Inr Ret_void), unlock q)"

text \<open>The statements of one call taken with no other thread in between, at most \<open>k\<close> of them.\<close>

fun finish ::
    "nat \<Rightarrow> 'a frame \<Rightarrow> 'a ThreadsafeQueue \<Rightarrow> ((error + 'a ret) \<times> 'a ThreadsafeQueue) option" where
  "finish 0 f q = None"
| "finish (Suc k) f q =
     (case step_frame f q of
        None \<Rightarrow> None
      | Some (f', Some r, q') \<Rightarrow> Some (r, q')
      | Some (f', None, q') \<Rightarrow> finish k f' q')"

text \<open>
  A thread: where it stands, the calls it has entered so far and what the calls it has
  left handed back, both in order.
\<close>

record 'a thread =
  frame :: "'a frame"
  calls :: "'a call list"
  rets :: "(error + 'a ret) list"

record 'a system =
  shared :: "'a ThreadsafeQueue"
  threads :: "'a thread list"

text \<open>\<open>n\<close> threads outside every call, and a queue made by the default constructor.\<close>

definition initial :: "nat \<Rightarrow> 'a system" where
  "initial n =
     \<lparr>shared = ThreadsafeQueue_default,
      threads = replicate n \<lparr>frame = Idle, calls = [], rets = []\<rparr>\<rparr>"

fun idle :: "'a frame \<Rightarrow> bool" where
  "idle Idle = True"
| "idle f = False"

text \<open>
  What the scheduler and the threads' code choose: thread \<open>i\<close>, outside every call,
  enters a call of its choice; or thread \<open>i\<close> takes its next statement.
\<close>

datatype 'a action = Begin nat "'a call" | Step nat

fun act :: "'a action \<Rightarrow> 'a system \<Rightarrow> 'a system option" where
  "act (Begin i c) s =
     (if i < length (threads s) \<and> idle (frame (threads s ! i))
      then Some (s\<lparr>threads := (threads s)
                   [i := (threads s ! i)\<lparr>frame := enter c, calls := calls (threads s ! i) @ [c]\<rparr>]\<rparr>)
      else None)"
| "act (Step i) s =
     (if i < length (threads s)
      then (case step_frame (frame (threads s ! i)) (shared s) of
              None \<Rightarrow> None
            | Some (f, out, q) \<Rightarrow>
                Some \<lparr>shared = q,
                      threads = (threads s)
                        [i := (threads s ! i)
                           \<lparr>frame := f,
                            rets := rets (threads s ! i) @ (case out of None \<Rightarrow> [] | Some r \<Rightarrow> [r])\<rparr>]\<rparr>)
      else None)"

fun run_schedule :: "'a action list \<Rightarrow> 'a system \<Rightarrow> 'a system option" where
  "run_schedule [] s = Some s"
| "run_schedule (a # as) s =
     (case act a s of None \<Rightarrow> None | Some s' \<Rightarrow> run_schedule as s')"

text \<open>The values given to \<open>push\<close>, and the values the removes handed to their callers.\<close>

fun pushed :: "'a call \<Rightarrow> 'a list" where
  "pushed (Push v) = [v]"
| "pushed c = []"

definition pushed_by :: "'a thread \<Rightarrow> 'a list" where
  "pushed_by t = concat (map pushed (calls t))"

definition removed_by :: "'a thread \<Rightarrow> 'a list" where
  "removed_by t = concat (map removed (rets t))"

definition pushed_values :: "'a system \<Rightarrow> 'a list" where
  "pushed_values s = concat (map pushed_by (threads s))"

definition removed_values :: "'a system \<Rightarrow> 'a list" where
  "removed_values s = concat (map removed_by (threads s))"

definition quiescent :: "'a system \<Rightarrow> bool" where
  "quiescent s = list_all (\<lambda>t. idle (frame t)) (threads s)"

text \<open>A thread in such a frame owns the mutex: it is past the guard and has not left.\<close>

fun in_cs :: "'a frame \<Rightarrow> bool" where
  "in_cs Idle = False"
| "in_cs Empty_68 = False"
| "in_cs (Pop_ref_75 v) = False"
| "in_cs Pop_ptr_83 = False"
| "in_cs (Push_92 v) = False"
| "in_cs f = True"

text \<open>
  The values a call holds that are neither in \<open>theQueue\<close> nor with the caller: the
  parameter of a \<open>push\<close> not yet appended, and the element a remove has taken off
  \<open>theQueue\<close> and not yet handed back.
\<close>

fun in_hand :: "'a frame \<Rightarrow> 'a list" where
  "in_hand (Push_92 v) = [v]"
| "in_hand (Push_93 v) = [v]"
| "in_hand (Pop_ref_79 v) = [v]"
| "in_hand (Pop_ptr_87 (make_shared v)) = [v]"
| "in_hand f = []"

text \<open>
  What a thread between the emptiness test and \<open>theQueue.pop()\<close> relies on: \<open>theQueue\<close>
  has an element, and once the front was read, it is still the front.
\<close>

fun frame_ok :: "'a frame \<Rightarrow> 'a list \<Rightarrow> bool" where
  "frame_ok (Pop_ref_77 v) xs = (xs \<noteq> [])"
| "frame_ok (Pop_ref_78 v) xs = (xs \<noteq> [] \<and> hd xs = v)"
| "frame_ok Pop_ptr_85 xs = (xs \<noteq> [])"
| "frame_ok (Pop_ptr_86 res) xs = (xs \<noteq> [] \<and> res = make_shared (hd xs))"
| "frame_ok f xs = True"

definition invariant :: "'a system \<Rightarrow> bool" where
  "invariant s =
     ((\<forall>i < length (threads s). \<forall>j < length (threads s).
         in_cs (frame (threads s ! i)) \<and> in_cs (frame (threads s ! j)) \<longrightarrow> i = j) \<and>
      (m (shared s) \<longleftrightarrow> (\<exists>i < length (threads s). in_cs (frame (threads s ! i)))) \<and>
      (\<forall>i < length (threads s). frame_ok (frame (threads s ! i)) (theQueue (shared s))) \<and>
      (\<Sum>t\<leftarrow>threads s. mset (removed_by t) + mset (in_hand (frame t)))
        + mset (theQueue (shared s))
        = (\<Sum>t\<leftarrow>threads s. mset (pushed_by t)))"

section \<open>Properties of single calls\<close>

lemma lock_guard_free: "\<not> m q \<Longrightarrow> lock_guard q = Some (q\<lparr>m := True\<rparr>)"
  by (simp add: lock_guard_def)

lemma unlock_locked: "\<not> m q \<Longrightarrow> unlock (q\<lparr>m := True\<rparr>) = q"
  by (simp add: unlock_def)

lemma empty_q_free: "\<not> m q \<Longrightarrow> empty_q q = Some (theQueue q = [], q)"
  by (simp add: empty_q_def lock_guard_def unlock_def)

lemma pop_ref_free:
  "\<not> m q \<Longrightarrow> pop_ref q value =
     Some (if theQueue q = [] then (Inl empty_queue, value, q)
           else (Inr (), hd (theQueue q), q\<lparr>theQueue := tl (theQueue q)\<rparr>))"
  by (simp add: pop_ref_def lock_guard_def unlock_def)

lemma pop_ptr_free:
  "\<not> m q \<Longrightarrow> pop_ptr q =
     Some (if theQueue q = [] then (Inl empty_queue, q)
           else (Inr (make_shared (hd (theQueue q))), q\<lparr>theQueue := tl (theQueue q)\<rparr>))"
  by (simp add: pop_ptr_def lock_guard_def unlock_def)

lemma push_free: "\<not> m q \<Longrightarrow> push q v = Some (q\<lparr>theQueue := theQueue q @ [v]\<rparr>)"
  by (simp add: push_def lock_guard_def unlock_def)

lemma exec_call_free:
  "\<not> m q \<Longrightarrow> exec_call c q =
     Some (case c of
             Empty \<Rightarrow> (Inr (Ret_bool (theQueue q = [])), q)
           | Pop_ref v \<Rightarrow>
               if theQueue q = [] then (Inl empty_queue, q)
               else (Inr (Ret_ref (hd (theQueue q))), q\<lparr>theQueue := tl (theQueue q)\<rparr>)
           | Pop_ptr \<Rightarrow>
               if theQueue q = [] then (Inl empty_queue, q)
               else (Inr (Ret_ptr (make_shared (hd (theQueue q)))),
                     q\<lparr>theQueue := tl (theQueue q)\<rparr>)
           | Push v \<Rightarrow> (Inr Ret_void, q\<lparr>theQueue := theQueue q @ [v]\<rparr>))"
  by (cases c) (simp_all add: empty_q_free pop_ref_free pop_ptr_free push_free)

lemma exec_call_keeps_mutex:
  assumes "\<not> m q" and "exec_call c q = Some (r, q')"
  shows "\<not> m q'"
  using assms exec_call_free [OF assms(1), of c]
  by (cases c) (auto simp del: exec_call.simps split: if_splits)

text \<open>
  C2. On a queue whose mutex is free, each of the two \<open>pop\<close> overloads returns, throws
  \<open>empty_queue\<close> exactly when \<open>theQueue\<close> has no element, and in that case leaves the whole
  object as it was; with an element in \<open>theQueue\<close> it returns normally.
\<close>

theorem pop_throws_iff_empty:
  assumes "\<not> m q"
  shows "(\<exists>res value' q'. pop_ref q value = Some (res, value', q') \<and>
            (res = Inl empty_queue \<longleftrightarrow> theQueue q = []) \<and>
            (theQueue q = [] \<longrightarrow> q' = q) \<and>
            (theQueue q \<noteq> [] \<longrightarrow> res = Inr ())) \<and>
         (\<exists>res q'. pop_ptr q = Some (res, q') \<and>
            (res = Inl empty_queue \<longleftrightarrow> theQueue q = []) \<and>
            (theQueue q = [] \<longrightarrow> q' = q) \<and>
            (theQueue q \<noteq> [] \<longrightarrow> (\<exists>p. res = Inr p)))"
  using assms by (simp add: pop_ref_free pop_ptr_free)

theorem pop_throws_iff_empty_witness:
  "pop_ref \<lparr>m = False, theQueue = []\<rparr> (7::int)
     = Some (Inl empty_queue, 7, \<lparr>m = False, theQueue = []\<rparr>) \<and>
   pop_ptr \<lparr>m = False, theQueue = ([]::int list)\<rparr>
     = Some (Inl empty_queue, \<lparr>m = False, theQueue = []\<rparr>)"
  using pop_throws_iff_empty [of "\<lparr>m = False, theQueue = ([]::int list)\<rparr>" 7]
  by (simp add: pop_ref_def pop_ptr_def lock_guard_def unlock_def)

text \<open>
  C3. On a queue whose mutex is free and whose \<open>theQueue\<close> is \<open>x\<close> followed by \<open>xs\<close>,
  \<open>pop(value)\<close> returns normally, the caller's \<open>value\<close> holds the front element \<open>x\<close>, and
  \<open>theQueue\<close> is \<open>xs\<close>, the other elements in their order; nothing else of the object changes.
\<close>

theorem pop_ref_front:
  assumes "\<not> m q" and "theQueue q = x # xs"
  shows "pop_ref q value = Some (Inr (), x, q\<lparr>theQueue := xs\<rparr>)"
  using assms by (simp add: pop_ref_free)

theorem pop_ref_front_witness:
  "pop_ref \<lparr>m = False, theQueue = [4, 5, 6::int]\<rparr> 0
     = Some (Inr (), 4, \<lparr>m = False, theQueue = [5, 6]\<rparr>)"
  using pop_ref_front [of "\<lparr>m = False, theQueue = [4, 5, 6::int]\<rparr>" 4 "[5, 6]" 0]
  by simp

text \<open>
  C7. On a queue whose mutex is free, \<open>push(v)\<close> returns with \<open>v\<close> appended behind the
  elements \<open>theQueue\<close> had, which stay in their order, and nothing else of the object
  changed. Whatever the state, \<open>push\<close> never ends in a thrown exception.
\<close>

theorem push_appends:
  assumes "\<not> m q"
  shows "push q v = Some (q\<lparr>theQueue := theQueue q @ [v]\<rparr>) \<and>
         exec_call (Push v) q = Some (Inr Ret_void, q\<lparr>theQueue := theQueue q @ [v]\<rparr>) \<and>
         (\<forall>q0 e q'. exec_call (Push v) q0 \<noteq> Some (Inl e, q'))"
  using assms by (auto simp: push_free split: option.splits)

theorem push_appends_witness:
  "push \<lparr>m = False, theQueue = [1, 2::int]\<rparr> 3 = Some \<lparr>m = False, theQueue = [1, 2, 3]\<rparr>"
  using push_appends [of "\<lparr>m = False, theQueue = [1, 2::int]\<rparr>" 3]
  by simp

text \<open>
  C8. Whenever \<open>pop(value)\<close> throws, the caller's \<open>value\<close> holds what it held before the
  call; and on a queue whose mutex is free and whose \<open>theQueue\<close> has no element it does
  throw \<open>empty_queue\<close>.
\<close>

theorem pop_ref_throw_keeps_value:
  "(\<forall>e value' q'. pop_ref q value = Some (Inl e, value', q') \<longrightarrow> value' = value) \<and>
   (\<not> m q \<and> theQueue q = [] \<longrightarrow> pop_ref q value = Some (Inl empty_queue, value, q))"
  by (auto simp: pop_ref_def lock_guard_def unlock_def Let_def split: if_splits)

theorem pop_ref_throw_keeps_value_witness:
  "pop_ref \<lparr>m = False, theQueue = []\<rparr> (42::int)
     = Some (Inl empty_queue, 42, \<lparr>m = False, theQueue = []\<rparr>)"
  using pop_ref_throw_keeps_value [of "\<lparr>m = False, theQueue = ([]::int list)\<rparr>" 42]
  by simp

text \<open>
  C9. Whenever \<open>pop()\<close> returns a pointer, the pointer is not null and points to a copy of
  the element that was at the front of \<open>theQueue\<close> before the call; and on a queue whose
  mutex is free and whose \<open>theQueue\<close> is \<open>x\<close> followed by \<open>xs\<close> it does return, with a
  pointer to \<open>x\<close>, leaving \<open>xs\<close>.
\<close>

theorem pop_ptr_front:
  "(\<forall>p q'. pop_ptr q = Some (Inr p, q') \<longrightarrow>
      p \<noteq> nullptr \<and> p = make_shared (hd (theQueue q)) \<and> theQueue q \<noteq> []) \<and>
   (\<not> m q \<and> theQueue q = x # xs \<longrightarrow>
      pop_ptr q = Some (Inr (make_shared x), q\<lparr>theQueue := xs\<rparr>))"
  by (auto simp: pop_ptr_def lock_guard_def unlock_def Let_def split: if_splits)

theorem pop_ptr_front_witness:
  "pop_ptr \<lparr>m = False, theQueue = [4, 5, 6::int]\<rparr>
     = Some (Inr (make_shared 4), \<lparr>m = False, theQueue = [5, 6]\<rparr>) \<and>
   make_shared (4::int) \<noteq> nullptr"
proof -
  have "\<not> m \<lparr>m = False, theQueue = [4, 5, 6::int]\<rparr> \<and>
        theQueue \<lparr>m = False, theQueue = [4, 5, 6::int]\<rparr> = 4 # [5, 6]"
    by simp
  with pop_ptr_front [of "\<lparr>m = False, theQueue = [4, 5, 6::int]\<rparr>" 4 "[5, 6]"]
  have "pop_ptr \<lparr>m = False, theQueue = [4, 5, 6::int]\<rparr>
     = Some (Inr (make_shared 4), \<lparr>m = False, theQueue = [4, 5, 6::int]\<rparr>\<lparr>theQueue := [5, 6]\<rparr>)"
    by blast
  then show ?thesis by simp
qed

section \<open>Properties of sequences of calls\<close>

lemma run_calls_append:
  "run_calls (cs @ ds) q =
     (case run_calls cs q of
        None \<Rightarrow> None
      | Some (rs, q') \<Rightarrow>
          (case run_calls ds q' of None \<Rightarrow> None | Some (rs', q'') \<Rightarrow> Some (rs @ rs', q'')))"
  by (induction cs arbitrary: q) (auto split: option.splits)

lemma run_calls_Empty:
  "\<not> m q \<Longrightarrow>
     run_calls (replicate n Empty) q = Some (replicate n (Inr (Ret_bool (theQueue q = []))), q)"
  by (induction n) (simp_all add: empty_q_free)

lemma run_calls_Push:
  "\<not> m q \<Longrightarrow>
     run_calls (map Push ps) q
       = Some (replicate (length ps) (Inr Ret_void), q\<lparr>theQueue := theQueue q @ ps\<rparr>)"
proof (induction ps arbitrary: q)
  case Nil
  then show ?case by simp
next
  case (Cons p ps)
  have "\<not> m (q\<lparr>theQueue := theQueue q @ [p]\<rparr>)"
    using Cons.prems by simp
  from Cons.IH [OF this] Cons.prems show ?case
    by (simp add: push_free)
qed

lemma run_calls_removes:
  "\<not> m q \<Longrightarrow> list_all is_remove rs \<Longrightarrow> length rs = length (theQueue q) \<Longrightarrow>
     \<exists>outs. run_calls rs q = Some (outs, q\<lparr>theQueue := []\<rparr>) \<and>
            map removed outs = map (\<lambda>p. [p]) (theQueue q)"
proof (induction rs arbitrary: q)
  case Nil
  then show ?case by simp
next
  case (Cons r rs)
  from Cons.prems obtain x xs where q: "theQueue q = x # xs"
    by (cases "theQueue q") auto
  let ?q' = "q\<lparr>theQueue := xs\<rparr>"
  have step: "exec_call r q = Some (Inr (Ret_ref x), ?q') \<or>
              exec_call r q = Some (Inr (Ret_ptr (make_shared x)), ?q')"
    using Cons.prems q by (cases r) (simp_all add: pop_ref_free pop_ptr_free)
  have "\<not> m ?q'" "list_all is_remove rs" "length rs = length (theQueue ?q')"
    using Cons.prems q by simp_all
  from Cons.IH [OF this] obtain outs where
    outs: "run_calls rs ?q' = Some (outs, ?q'\<lparr>theQueue := []\<rparr>)"
      "map removed outs = map (\<lambda>p. [p]) xs"
    by auto
  from step outs q show ?case
    by auto
qed

lemma run_calls_count:
  "\<not> m q \<Longrightarrow>
     \<exists>rs q'. run_calls cs q = Some (rs, q') \<and> \<not> m q' \<and> length rs = length cs \<and>
       length (theQueue q') + length (filter remove_succeeded (zip cs rs))
         = length (theQueue q) + length (filter is_push cs)"
proof (induction cs arbitrary: q)
  case Nil
  then show ?case by simp
next
  case (Cons c cs)
  have "exec_call c q \<noteq> None"
    using exec_call_free [OF Cons.prems, of c] by (simp del: exec_call.simps)
  then obtain r q1 where step: "exec_call c q = Some (r, q1)"
    by (cases "exec_call c q") auto
  have free: "\<not> m q1"
    using exec_call_keeps_mutex [OF Cons.prems step] .
  have delta: "length (theQueue q1) + (if remove_succeeded (c, r) then 1 else 0)
                 = length (theQueue q) + (if is_push c then 1 else 0)"
    using step exec_call_free [OF Cons.prems, of c]
    by (cases c) (auto simp del: exec_call.simps split: if_splits simp: neq_Nil_conv)
  from Cons.IH [OF free] obtain rs q' where
    rest: "run_calls cs q1 = Some (rs, q')" "\<not> m q'" "length rs = length cs"
      "length (theQueue q') + length (filter remove_succeeded (zip cs rs))
         = length (theQueue q1) + length (filter is_push cs)"
    by blast
  have "run_calls (c # cs) q = Some (r # rs, q')"
    using step rest(1) by simp
  moreover have "length (theQueue q') + length (filter remove_succeeded (zip (c # cs) (r # rs)))
         = length (theQueue q) + length (filter is_push (c # cs))"
    using delta rest(4) by (simp split: if_splits)
  ultimately show ?case
    using rest(2,3) by simp
qed

text \<open>
  C1. On a queue made by the default constructor, the calls \<open>push(p1)\<close>, ...,
  \<open>push(pn)\<close> followed by \<open>n\<close> removes, each of them either overload of \<open>pop\<close>, all return:
  the \<open>i\<close>-th remove gives its caller exactly \<open>pi\<close>, and the queue is left as the default
  constructor makes it.
\<close>

theorem fifo_order:
  assumes "list_all is_remove rs" and "length rs = length ps"
  shows "\<exists>outs. run_calls (map Push ps @ rs) ThreadsafeQueue_default
             = Some (replicate (length ps) (Inr Ret_void) @ outs, ThreadsafeQueue_default) \<and>
           map removed outs = map (\<lambda>p. [p]) ps"
proof -
  let ?q0 = "ThreadsafeQueue_default :: 'a ThreadsafeQueue"
  let ?q1 = "?q0\<lparr>theQueue := theQueue ?q0 @ ps\<rparr>"
  have free0: "\<not> m ?q0"
    by (simp add: ThreadsafeQueue_default_def)
  have pushes: "run_calls (map Push ps) ?q0 = Some (replicate (length ps) (Inr Ret_void), ?q1)"
    using run_calls_Push [OF free0] .
  have "\<not> m ?q1" "length rs = length (theQueue ?q1)"
    using assms(2) by (simp_all add: ThreadsafeQueue_default_def)
  from run_calls_removes [OF this(1) assms(1) this(2)] obtain outs where
    outs: "run_calls rs ?q1 = Some (outs, ?q1\<lparr>theQueue := []\<rparr>)"
      "map removed outs = map (\<lambda>p. [p]) (theQueue ?q1)"
    by blast
  have "?q1\<lparr>theQueue := []\<rparr> = ?q0" "theQueue ?q1 = ps"
    by (simp_all add: ThreadsafeQueue_default_def)
  with pushes outs show ?thesis
    by (simp add: run_calls_append)
qed

theorem fifo_order_witness:
  "run_calls [Push 1, Push 2, Push 3, Pop_ptr, Pop_ref 0, Pop_ptr] ThreadsafeQueue_default
     = Some ([Inr Ret_void, Inr Ret_void, Inr Ret_void,
              Inr (Ret_ptr (make_shared (1::int))), Inr (Ret_ref 2), Inr (Ret_ptr (make_shared 3))],
             ThreadsafeQueue_default)"
proof -
  have "list_all is_remove [Pop_ptr, Pop_ref 0, Pop_ptr :: int call]"
    and "length [Pop_ptr, Pop_ref 0, Pop_ptr :: int call] = length [1, 2, 3 :: int]"
    by simp_all
  from fifo_order [OF this] obtain outs where
    "run_calls (map Push [1, 2, 3 :: int] @ [Pop_ptr, Pop_ref 0, Pop_ptr]) ThreadsafeQueue_default
       = Some (replicate (length [1, 2, 3 :: int]) (Inr Ret_void) @ outs, ThreadsafeQueue_default)"
    by blast
  then show ?thesis
    by (simp add: ThreadsafeQueue_default_def empty_q_def pop_ref_def pop_ptr_def push_def
        lock_guard_def unlock_def)
qed

text \<open>
  The scenario of the specification, with the emptiness tests around the removes: three
  pushes, \<open>empty()\<close> is false, three removes give 1, 2, 3, a fourth throws, \<open>empty()\<close> is
  true.
\<close>

lemma scenario_push_1_2_3:
  "run_calls [Push 1, Push 2, Push 3, Empty, Pop_ptr, Pop_ptr, Pop_ptr, Pop_ptr, Empty]
       ThreadsafeQueue_default
     = Some ([Inr Ret_void, Inr Ret_void, Inr Ret_void, Inr (Ret_bool False),
              Inr (Ret_ptr (make_shared (1::int))), Inr (Ret_ptr (make_shared 2)),
              Inr (Ret_ptr (make_shared 3)), Inl empty_queue, Inr (Ret_bool True)],
             ThreadsafeQueue_default)"
  by (simp add: ThreadsafeQueue_default_def empty_q_def pop_ptr_def push_def
      lock_guard_def unlock_def)

text \<open>
  C6. On a queue whose mutex is free, \<open>empty()\<close> returns \<open>true\<close> exactly when \<open>theQueue\<close>
  has no element and leaves the whole object as it was; any number \<open>n\<close> of calls of
  \<open>empty()\<close> in a row all return that same value and leave the object as it was.
\<close>

theorem empty_pure_idempotent:
  assumes "\<not> m q"
  shows "empty_q q = Some (theQueue q = [], q) \<and>
         run_calls (replicate n Empty) q
           = Some (replicate n (Inr (Ret_bool (theQueue q = []))), q)"
  using assms by (simp add: empty_q_free run_calls_Empty)

theorem empty_pure_idempotent_witness:
  "empty_q \<lparr>m = False, theQueue = [5::int]\<rparr> = Some (False, \<lparr>m = False, theQueue = [5]\<rparr>) \<and>
   run_calls [Empty, Empty, Empty] \<lparr>m = False, theQueue = [5::int]\<rparr>
     = Some ([Inr (Ret_bool False), Inr (Ret_bool False), Inr (Ret_bool False)],
             \<lparr>m = False, theQueue = [5]\<rparr>)"
proof -
  have "\<not> m \<lparr>m = False, theQueue = [5::int]\<rparr>"
    by simp
  from empty_pure_idempotent [OF this, of 3] show ?thesis
    by (simp add: numeral_3_eq_3)
qed

text \<open>
  C10. On a queue whose mutex is free every call returns, and: \<open>push\<close> leaves one element
  more; either \<open>pop\<close> overload leaves one element fewer when it returns normally and the
  same number when it throws; \<open>empty\<close> leaves the same number. Hence after any calls
  \<open>cs\<close> made one after the other the number of elements has grown by the number of
  \<open>push\<close> calls and shrunk by the number of removes that returned normally; on a queue
  made by the default constructor it is the one minus the other.
\<close>

theorem length_delta:
  assumes "\<not> m q"
  shows "(\<exists>q'. push q v = Some q' \<and> length (theQueue q') = length (theQueue q) + 1) \<and>
         (\<exists>res value' q'. pop_ref q value = Some (res, value', q') \<and>
            (res = Inr () \<longrightarrow> length (theQueue q') + 1 = length (theQueue q)) \<and>
            (res = Inl empty_queue \<longrightarrow> length (theQueue q') = length (theQueue q))) \<and>
         (\<exists>res q'. pop_ptr q = Some (res, q') \<and>
            ((\<exists>p. res = Inr p) \<longrightarrow> length (theQueue q') + 1 = length (theQueue q)) \<and>
            (res = Inl empty_queue \<longrightarrow> length (theQueue q') = length (theQueue q))) \<and>
         (\<exists>b q'. empty_q q = Some (b, q') \<and> length (theQueue q') = length (theQueue q)) \<and>
         (\<exists>rs q'. run_calls cs q = Some (rs, q') \<and>
            length (theQueue q') + length (filter remove_succeeded (zip cs rs))
              = length (theQueue q) + length (filter is_push cs)) \<and>
         (\<exists>rs q'. run_calls cs ThreadsafeQueue_default = Some (rs, q') \<and>
            int (length (theQueue q'))
              = int (length (filter is_push cs))
                - int (length (filter remove_succeeded (zip cs rs))))"
proof -
  have 1: "\<exists>q'. push q v = Some q' \<and> length (theQueue q') = length (theQueue q) + 1"
    using assms by (simp add: push_free)
  have 2: "\<exists>res value' q'. pop_ref q value = Some (res, value', q') \<and>
            (res = Inr () \<longrightarrow> length (theQueue q') + 1 = length (theQueue q)) \<and>
            (res = Inl empty_queue \<longrightarrow> length (theQueue q') = length (theQueue q))"
    using assms by (cases "theQueue q") (simp_all add: pop_ref_free)
  have 3: "\<exists>res q'. pop_ptr q = Some (res, q') \<and>
            ((\<exists>p. res = Inr p) \<longrightarrow> length (theQueue q') + 1 = length (theQueue q)) \<and>
            (res = Inl empty_queue \<longrightarrow> length (theQueue q') = length (theQueue q))"
    using assms by (cases "theQueue q") (simp_all add: pop_ptr_free)
  have 4: "\<exists>b q'. empty_q q = Some (b, q') \<and> length (theQueue q') = length (theQueue q)"
    using assms by (simp add: empty_q_free)
  have 5: "\<exists>rs q'. run_calls cs q = Some (rs, q') \<and>
            length (theQueue q') + length (filter remove_succeeded (zip cs rs))
              = length (theQueue q) + length (filter is_push cs)"
    using run_calls_count [OF assms, of cs] by blast
  have "\<not> m (ThreadsafeQueue_default :: 'a ThreadsafeQueue)"
    by (simp add: ThreadsafeQueue_default_def)
  from run_calls_count [OF this, of cs] obtain rs q' where
    "run_calls cs (ThreadsafeQueue_default :: 'a ThreadsafeQueue) = Some (rs, q')"
    "length (theQueue q') + length (filter remove_succeeded (zip cs rs))
       = length (theQueue (ThreadsafeQueue_default :: 'a ThreadsafeQueue))
         + length (filter is_push cs)"
    by blast
  then have 6: "\<exists>rs q'. run_calls cs ThreadsafeQueue_default = Some (rs, q') \<and>
            int (length (theQueue q'))
              = int (length (filter is_push cs))
                - int (length (filter remove_succeeded (zip cs rs)))"
    by (auto simp: ThreadsafeQueue_default_def)
  from 1 2 3 4 5 6 show ?thesis
    by blast
qed

theorem length_delta_witness:
  "push \<lparr>m = False, theQueue = [1, 2::int]\<rparr> 3 = Some \<lparr>m = False, theQueue = [1, 2, 3]\<rparr> \<and>
   length (theQueue \<lparr>m = False, theQueue = [1, 2, 3::int]\<rparr>)
     = length (theQueue \<lparr>m = False, theQueue = [1, 2::int]\<rparr>) + 1"
proof -
  have "\<not> m \<lparr>m = False, theQueue = [1, 2::int]\<rparr>"
    by simp
  from length_delta [OF this, of 3 0 "[]"] show ?thesis
    by (simp add: push_def lock_guard_def unlock_def)
qed

section \<open>Properties of copies\<close>

lemma ThreadsafeQueue_copy_free:
  "\<not> m src \<Longrightarrow> ThreadsafeQueue_copy src = Some (\<lparr>m = False, theQueue = theQueue src\<rparr>, src)"
  by (simp add: ThreadsafeQueue_copy_def ThreadsafeQueue_default_def lock_guard_def unlock_def)

lemma call_at_frame:
  "call_at s a c = Some (r, s') \<Longrightarrow> b \<noteq> a \<Longrightarrow> s' b = s b"
  by (auto simp: call_at_def split: option.splits)

lemma call_at_self:
  "call_at s a c = Some (r, s') \<Longrightarrow>
     \<exists>q q'. s a = Some q \<and> exec_call c q = Some (r, q') \<and> s' a = Some q'"
  by (auto simp: call_at_def split: option.splits)

lemma run_at_projection:
  "run_at s acs = Some (rs, s') \<Longrightarrow> s a = Some q \<Longrightarrow>
     \<exists>q'. s' a = Some q' \<and> run_calls (calls_of a acs) q = Some (results_of a acs rs, q')"
proof (induction acs arbitrary: s rs q)
  case Nil
  then show ?case by (simp add: calls_of_def results_of_def)
next
  case (Cons ac acs)
  obtain b c where ac: "ac = (b, c)"
    by (cases ac)
  from Cons.prems(1) ac obtain r s1 rs1 where
    first: "call_at s b c = Some (r, s1)" and rest: "run_at s1 acs = Some (rs1, s')"
    and rs: "rs = r # rs1"
    by (auto split: option.splits)
  show ?case
  proof (cases "b = a")
    case True
    from call_at_self [OF first] True Cons.prems(2) obtain q1 where
      q1: "exec_call c q = Some (r, q1)" "s1 a = Some q1"
      by auto
    from Cons.IH [OF rest q1(2)] obtain q' where
      "s' a = Some q'" "run_calls (calls_of a acs) q1 = Some (results_of a acs rs1, q')"
      by blast
    with q1(1) True ac rs show ?thesis
      by (simp add: calls_of_def results_of_def)
  next
    case False
    then have "s1 a = Some q"
      using call_at_frame [OF first, of a] Cons.prems(2) by simp
    from Cons.IH [OF rest this] obtain q' where
      "s' a = Some q'" "run_calls (calls_of a acs) q = Some (results_of a acs rs1, q')"
      by blast
    with False ac rs show ?thesis
      by (simp add: calls_of_def results_of_def)
  qed
qed

lemma call_at_changes:
  assumes "call_at s a c = Some (r, s')"
    and "map_option theQueue (s' b) \<noteq> map_option theQueue (s b)"
  shows "b = a \<and> (is_push c \<or> remove_succeeded (c, r))"
proof -
  have "b = a"
    using call_at_frame [OF assms(1), of b] assms(2) by (cases "b = a") simp_all
  from call_at_self [OF assms(1)] obtain q q' where
    q: "s a = Some q" "exec_call c q = Some (r, q')" "s' a = Some q'"
    by blast
  with assms(2) \<open>b = a\<close> have "theQueue q' \<noteq> theQueue q"
    by simp
  with q(2) have "is_push c \<or> remove_succeeded (c, r)"
    by (cases c)
      (auto simp: empty_q_def pop_ref_def pop_ptr_def lock_guard_def unlock_def Let_def
            split: option.splits if_splits)
  with \<open>b = a\<close> show ?thesis
    by simp
qed

text \<open>
  C5. Let the object at \<open>other\<close> have its mutex free and let no object live at \<open>this\<close>.
  The copy constructor returns; it leaves every object there was as it was (the object
  at \<open>other\<close> too) and makes at \<open>this\<close> an object with a free mutex whose \<open>theQueue\<close> has
  the elements of the source in their order. After any calls made from then on, on
  these two objects or on others, the object at \<open>this\<close> is what the calls made on it alone
  make of the copy, and the object at \<open>other\<close> is what the calls made on it alone make of
  the source; the calls return what they would return alone. The class has no assignment
  (\<open>operator=\<close> is deleted, so \<open>call\<close> has no constructor for it): the \<open>theQueue\<close> of an
  object is changed only by a \<open>push\<close> or a remove that returned normally, called on that
  object.
\<close>

theorem copy_independent:
  assumes "(s :: 'a storage) other = Some src" and "\<not> m src" and "s this = None"
  shows "\<exists>cp. copy_at s this other = Some (s(this \<mapsto> cp)) \<and>
           theQueue cp = theQueue src \<and> \<not> m cp \<and>
           (\<forall>acs rs s'. run_at (s(this \<mapsto> cp)) acs = Some (rs, s') \<longrightarrow>
              (\<exists>q'. s' this = Some q' \<and>
                 run_calls (calls_of this acs) cp = Some (results_of this acs rs, q')) \<and>
              (\<exists>q'. s' other = Some q' \<and>
                 run_calls (calls_of other acs) src = Some (results_of other acs rs, q'))) \<and>
           (\<forall>(s1 :: 'a storage) a c r s2 b. call_at s1 a c = Some (r, s2) \<longrightarrow>
              map_option theQueue (s2 b) \<noteq> map_option theQueue (s1 b) \<longrightarrow>
              b = a \<and> (is_push c \<or> remove_succeeded (c, r)))"
proof -
  let ?cp = "\<lparr>m = False, theQueue = theQueue src\<rparr>"
  have neq: "this \<noteq> other"
    using assms(1,3) by auto
  have "s(other \<mapsto> src) = s"
    using assms(1) by (simp add: fun_upd_idem)
  then have copy: "copy_at s this other = Some (s(this \<mapsto> ?cp))"
    using assms by (simp add: copy_at_def ThreadsafeQueue_copy_free)
  have indep: "(\<exists>q'. s' this = Some q' \<and>
                 run_calls (calls_of this acs) ?cp = Some (results_of this acs rs, q')) \<and>
               (\<exists>q'. s' other = Some q' \<and>
                 run_calls (calls_of other acs) src = Some (results_of other acs rs, q'))"
    if run: "run_at (s(this \<mapsto> ?cp)) acs = Some (rs, s')" for acs rs s'
  proof -
    have "(s(this \<mapsto> ?cp)) this = Some ?cp" "(s(this \<mapsto> ?cp)) other = Some src"
      using neq assms(1) by simp_all
    from run_at_projection [OF run this(1)] run_at_projection [OF run this(2)]
    show ?thesis by blast
  qed
  have only: "b = a \<and> (is_push c \<or> remove_succeeded (c, r))"
    if "call_at s1 a c = Some (r, s2)"
      and "map_option theQueue (s2 b) \<noteq> map_option theQueue (s1 b)"
    for s1 :: "'a storage" and a c r s2 b
    using call_at_changes [OF that] .
  have "theQueue ?cp = theQueue src" "\<not> m ?cp"
    by simp_all
  with copy indep only show ?thesis
    by blast
qed

theorem copy_independent_witness:
  "copy_at [0 \<mapsto> \<lparr>m = False, theQueue = [1, 2::int]\<rparr>] 1 0
     = Some [0 \<mapsto> \<lparr>m = False, theQueue = [1, 2]\<rparr>, 1 \<mapsto> \<lparr>m = False, theQueue = [1, 2]\<rparr>] \<and>
   run_at [0 \<mapsto> \<lparr>m = False, theQueue = [1, 2::int]\<rparr>, 1 \<mapsto> \<lparr>m = False, theQueue = [1, 2]\<rparr>]
       [(1, Push 9), (0, Pop_ptr)]
     = Some ([Inr Ret_void, Inr (Ret_ptr (make_shared 1))],
             [0 \<mapsto> \<lparr>m = False, theQueue = [2]\<rparr>, 1 \<mapsto> \<lparr>m = False, theQueue = [1, 2, 9]\<rparr>])"
proof -
  have run: "run_at [0 \<mapsto> \<lparr>m = False, theQueue = [1, 2::int]\<rparr>, 1 \<mapsto> \<lparr>m = False, theQueue = [1, 2]\<rparr>]
       [(1, Push 9), (0, Pop_ptr)]
     = Some ([Inr Ret_void, Inr (Ret_ptr (make_shared 1))],
             [0 \<mapsto> \<lparr>m = False, theQueue = [2]\<rparr>, 1 \<mapsto> \<lparr>m = False, theQueue = [1, 2, 9]\<rparr>])"
    by (simp add: call_at_def push_free pop_ptr_free fun_upd_twist)
  let ?s = "[0 \<mapsto> \<lparr>m = False, theQueue = [1, 2::int]\<rparr>] :: int storage"
  have "?s 0 = Some \<lparr>m = False, theQueue = [1, 2::int]\<rparr>"
    and "\<not> m \<lparr>m = False, theQueue = [1, 2::int]\<rparr>" and "?s 1 = None"
    by simp_all
  from copy_independent [OF this] obtain cp where
    cp: "copy_at ?s 1 0 = Some (?s(1 \<mapsto> cp))"
      "theQueue cp = theQueue \<lparr>m = False, theQueue = [1, 2::int]\<rparr>" "\<not> m cp"
    by blast
  from cp(2,3) have "cp = \<lparr>m = False, theQueue = [1, 2]\<rparr>"
    by (cases cp) simp
  with cp(1) run show ?thesis
    by simp
qed

section \<open>Properties of interleaved runs\<close>

lemma exec_call_uninterrupted: "finish 5 (enter c) q = exec_call c q"
  by (cases c)
    (simp_all add: numeral_eq_Suc empty_q_def pop_ref_def pop_ptr_def push_def
       lock_guard_def unlock_def split: option.splits)

lemma frame_ok_outside: "\<not> in_cs f \<Longrightarrow> frame_ok f xs"
  by (cases f) simp_all

lemma in_hand_enter: "in_hand (enter c) = pushed c"
  by (cases c) simp_all

lemma in_cs_enter: "\<not> in_cs (enter c)"
  by (cases c) simp_all

lemma idle_outside: "idle f \<Longrightarrow> \<not> in_cs f \<and> in_hand f = []"
  by (cases f) simp_all

lemma step_frame_acquires:
  assumes "step_frame f0 q = Some (f, out, q')" and "\<not> in_cs f0"
  shows "\<not> m q \<and> m q' \<and> in_cs f \<and> theQueue q' = theQueue q"
  using assms by (cases f0) (auto simp: lock_guard_def split: if_splits)

lemma step_frame_inside:
  assumes "step_frame f0 q = Some (f, out, q')" and "in_cs f0"
  shows "(in_cs f \<and> m q' = m q) \<or> (\<not> in_cs f \<and> \<not> m q')"
  using assms by (cases f0) (auto simp: unlock_def split: if_splits)

lemma step_frame_ok:
  assumes "step_frame f0 q = Some (f, out, q')" and "frame_ok f0 (theQueue q)"
  shows "frame_ok f (theQueue q')"
  using assms by (cases f0) (auto simp: lock_guard_def unlock_def split: if_splits)

lemma removed_ptr_in_hand: "removed (Inr (Ret_ptr p)) = in_hand (Pop_ptr_87 p)"
  by (cases p) simp_all

lemma step_frame_conserves:
  assumes "step_frame f0 q = Some (f, out, q')" and "frame_ok f0 (theQueue q)"
  shows "mset (in_hand f) + mset (case out of None \<Rightarrow> [] | Some r \<Rightarrow> removed r)
           + mset (theQueue q')
         = mset (in_hand f0) + mset (theQueue q)"
proof (cases "theQueue q")
  case Nil
  with assms show ?thesis
    by (cases f0) (auto simp: lock_guard_def unlock_def removed_ptr_in_hand split: if_splits)
next
  case (Cons x xs)
  with assms show ?thesis
    by (cases f0) (auto simp: lock_guard_def unlock_def removed_ptr_in_hand split: if_splits)
qed

lemma sum_list_update_mset:
  fixes g :: "'b \<Rightarrow> 'c multiset"
  shows "i < length ts \<Longrightarrow>
     sum_list (map g (ts[i := t])) + g (ts ! i) = sum_list (map g ts) + g t"
proof (induction ts arbitrary: i)
  case Nil
  then show ?case by simp
next
  case (Cons a ts)
  show ?case
  proof (cases i)
    case 0
    then show ?thesis by (simp add: ac_simps)
  next
    case (Suc k)
    with Cons.prems have "k < length ts" by simp
    from Cons.IH [OF this] Suc show ?thesis
      by (simp add: add.assoc)
  qed
qed

lemma sum_list_update_same:
  "i < length ts \<Longrightarrow> g t = g (ts ! i) \<Longrightarrow> sum_list (map g (ts[i := t])) = sum_list (map g ts)"
proof -
  assume "i < length ts" and "g t = g (ts ! i)"
  then have "map g (ts[i := t]) = (map g ts)[i := map g ts ! i]"
    by (simp add: map_update)
  then show ?thesis
    by simp
qed

lemma invariant_initial: "invariant (initial n)"
proof -
  have "(\<Sum>t\<leftarrow>replicate n \<lparr>frame = Idle, calls = [], rets = []\<rparr>.
           mset (removed_by t) + mset (in_hand (frame t))) = ({#} :: 'a multiset)"
    by (induction n) (simp_all add: removed_by_def)
  moreover have "(\<Sum>t\<leftarrow>replicate n \<lparr>frame = Idle, calls = [], rets = []\<rparr>.
           mset (pushed_by t)) = ({#} :: 'a multiset)"
    by (induction n) (simp_all add: pushed_by_def)
  ultimately show ?thesis
    by (simp add: invariant_def initial_def ThreadsafeQueue_default_def)
qed

lemma invariant_Begin:
  assumes inv: "invariant s" and i: "i < length (threads s)"
    and idle: "idle (frame (threads s ! i))"
  shows "invariant (s\<lparr>threads := (threads s)
           [i := (threads s ! i)\<lparr>frame := enter c, calls := calls (threads s ! i) @ [c]\<rparr>]\<rparr>)"
proof -
  define t' where "t' = (threads s ! i)\<lparr>frame := enter c, calls := calls (threads s ! i) @ [c]\<rparr>"
  let ?ts = "threads s"
  let ?g = "\<lambda>t. mset (removed_by t) + mset (in_hand (frame t))"
  let ?h = "\<lambda>t. mset (pushed_by t)"
  have out0: "\<not> in_cs (frame (?ts ! i))" and hand0: "in_hand (frame (?ts ! i)) = []"
    using idle_outside [OF idle] by simp_all
  have out': "\<not> in_cs (frame t')"
    by (simp add: t'_def in_cs_enter)
  have cs_same: "in_cs (frame (?ts[i := t'] ! j)) = in_cs (frame (?ts ! j))"
    if "j < length ?ts" for j
    using that out0 out' i by (cases "j = i") simp_all
  have ok_same: "frame_ok (frame (?ts[i := t'] ! j)) xs"
    if "j < length ?ts" and "frame_ok (frame (?ts ! j)) xs" for j xs
    using that out' i frame_ok_outside by (cases "j = i") simp_all
  have g: "?g t' = ?g (?ts ! i) + mset (pushed c)"
    by (simp add: t'_def removed_by_def hand0 in_hand_enter)
  have h: "?h t' = ?h (?ts ! i) + mset (pushed c)"
    by (simp add: t'_def pushed_by_def)
  have "sum_list (map ?g (?ts[i := t'])) + ?g (?ts ! i) = sum_list (map ?g ?ts) + ?g t'"
    using sum_list_update_mset [OF i] .
  then have sg: "sum_list (map ?g (?ts[i := t'])) = sum_list (map ?g ?ts) + mset (pushed c)"
    by (simp add: g)
  have "sum_list (map ?h (?ts[i := t'])) + ?h (?ts ! i) = sum_list (map ?h ?ts) + ?h t'"
    using sum_list_update_mset [OF i] .
  then have sh: "sum_list (map ?h (?ts[i := t'])) = sum_list (map ?h ?ts) + mset (pushed c)"
    by (simp add: h)
  have bal: "sum_list (map ?g ?ts) + mset (theQueue (shared s)) = sum_list (map ?h ?ts)"
    using inv by (simp add: invariant_def)
  have "invariant (s\<lparr>threads := ?ts[i := t']\<rparr>)"
    unfolding invariant_def
  proof (intro conjI)
    show "\<forall>j<length (threads (s\<lparr>threads := ?ts[i := t']\<rparr>)).
            \<forall>k<length (threads (s\<lparr>threads := ?ts[i := t']\<rparr>)).
              in_cs (frame (threads (s\<lparr>threads := ?ts[i := t']\<rparr>) ! j)) \<and>
              in_cs (frame (threads (s\<lparr>threads := ?ts[i := t']\<rparr>) ! k)) \<longrightarrow> j = k"
      using inv cs_same by (simp add: invariant_def)
    show "m (shared (s\<lparr>threads := ?ts[i := t']\<rparr>)) =
            (\<exists>j<length (threads (s\<lparr>threads := ?ts[i := t']\<rparr>)).
               in_cs (frame (threads (s\<lparr>threads := ?ts[i := t']\<rparr>) ! j)))"
      using inv cs_same by (simp add: invariant_def cong: conj_cong)
    show "\<forall>j<length (threads (s\<lparr>threads := ?ts[i := t']\<rparr>)).
            frame_ok (frame (threads (s\<lparr>threads := ?ts[i := t']\<rparr>) ! j))
              (theQueue (shared (s\<lparr>threads := ?ts[i := t']\<rparr>)))"
      using inv ok_same by (simp add: invariant_def)
    show "(\<Sum>t\<leftarrow>threads (s\<lparr>threads := ?ts[i := t']\<rparr>).
              mset (removed_by t) + mset (in_hand (frame t)))
            + mset (theQueue (shared (s\<lparr>threads := ?ts[i := t']\<rparr>)))
          = (\<Sum>t\<leftarrow>threads (s\<lparr>threads := ?ts[i := t']\<rparr>). mset (pushed_by t))"
      using sg sh bal by (simp add: ac_simps)
  qed
  then show ?thesis
    by (simp add: t'_def)
qed

lemma invariant_Step:
  assumes inv: "invariant s" and i: "i < length (threads s)"
    and step: "step_frame (frame (threads s ! i)) (shared s) = Some (f, out, q)"
  shows "invariant
           \<lparr>shared = q,
            threads = (threads s)
              [i := (threads s ! i)
                 \<lparr>frame := f,
                  rets := rets (threads s ! i) @ (case out of None \<Rightarrow> [] | Some r \<Rightarrow> [r])\<rparr>]\<rparr>"
proof -
  define t' where "t' = (threads s ! i)
    \<lparr>frame := f, rets := rets (threads s ! i) @ (case out of None \<Rightarrow> [] | Some r \<Rightarrow> [r])\<rparr>"
  let ?ts = "threads s"
  let ?f0 = "frame (threads s ! i)"
  let ?g = "\<lambda>t. mset (removed_by t) + mset (in_hand (frame t))"
  let ?h = "\<lambda>t. mset (pushed_by t)"
  have excl: "j = k"
    if "j < length ?ts" "k < length ?ts" "in_cs (frame (?ts ! j))" "in_cs (frame (?ts ! k))"
    for j k
    using inv that unfolding invariant_def by blast
  have mutex: "m (shared s) \<longleftrightarrow> (\<exists>j<length ?ts. in_cs (frame (?ts ! j)))"
    using inv unfolding invariant_def by blast
  have oks: "frame_ok (frame (?ts ! j)) (theQueue (shared s))" if "j < length ?ts" for j
    using inv that unfolding invariant_def by blast
  have bal: "sum_list (map ?g ?ts) + mset (theQueue (shared s)) = sum_list (map ?h ?ts)"
    using inv unfolding invariant_def by blast
  have frame': "frame t' = f"
    by (simp add: t'_def)
  have others: "\<not> in_cs (frame (?ts ! j))" if "j < length ?ts" "j \<noteq> i" for j
  proof (cases "in_cs ?f0")
    case True
    with excl [OF that(1) i] that(2) show ?thesis by blast
  next
    case False
    from step_frame_acquires [OF step False] have "\<not> m (shared s)" by simp
    with mutex that(1) show ?thesis by blast
  qed
  have nth': "?ts[i := t'] ! j = (if j = i then t' else ?ts ! j)" if "j < length ?ts" for j
    using that by (simp add: nth_list_update)
  have cs': "in_cs (frame (?ts[i := t'] ! j)) \<longleftrightarrow> j = i \<and> in_cs f" if "j < length ?ts" for j
    using that others [OF that] by (simp add: nth' frame')
  have m': "m q \<longleftrightarrow> in_cs f"
  proof (cases "in_cs ?f0")
    case True
    then have "m (shared s)" using mutex i by blast
    with step_frame_inside [OF step True] show ?thesis by auto
  next
    case False
    from step_frame_acquires [OF step False] show ?thesis by simp
  qed
  have ok_i: "frame_ok f (theQueue q)"
    using step_frame_ok [OF step oks [OF i]] .
  have ok': "frame_ok (frame (?ts[i := t'] ! j)) (theQueue q)" if "j < length ?ts" for j
  proof (cases "j = i")
    case True
    with that ok_i show ?thesis by (simp add: nth' frame')
  next
    case False
    from frame_ok_outside [OF others [OF that False]] that False show ?thesis
      by (simp add: nth')
  qed
  have cons: "mset (in_hand f) + mset (case out of None \<Rightarrow> [] | Some r \<Rightarrow> removed r)
                + mset (theQueue q)
              = mset (in_hand ?f0) + mset (theQueue (shared s))"
    using step_frame_conserves [OF step oks [OF i]] .
  have rem': "removed_by t' = removed_by (?ts ! i) @ (case out of None \<Rightarrow> [] | Some r \<Rightarrow> removed r)"
    by (cases out) (simp_all add: t'_def removed_by_def)
  have "?h t' = ?h (?ts ! i)"
    by (simp add: t'_def pushed_by_def)
  then have sh: "sum_list (map ?h (?ts[i := t'])) = sum_list (map ?h ?ts)"
    using sum_list_update_same [OF i, of ?h t'] by simp
  have "sum_list (map ?g (?ts[i := t'])) + ?g (?ts ! i) = sum_list (map ?g ?ts) + ?g t'"
    using sum_list_update_mset [OF i] .
  then have "sum_list (map ?g (?ts[i := t'])) + mset (in_hand ?f0)
               = sum_list (map ?g ?ts) + mset (case out of None \<Rightarrow> [] | Some r \<Rightarrow> removed r)
                 + mset (in_hand f)"
    by (simp add: rem' frame')
  then have "sum_list (map ?g (?ts[i := t'])) + mset (theQueue q) + mset (in_hand ?f0)
               = sum_list (map ?g ?ts) + mset (theQueue (shared s)) + mset (in_hand ?f0)"
    using cons by (simp add: ac_simps)
  then have sg: "sum_list (map ?g (?ts[i := t'])) + mset (theQueue q)
               = sum_list (map ?g ?ts) + mset (theQueue (shared s))"
    by simp
  have "invariant \<lparr>shared = q, threads = ?ts[i := t']\<rparr>"
    unfolding invariant_def
  proof (intro conjI)
    show "\<forall>j<length (threads \<lparr>shared = q, threads = ?ts[i := t']\<rparr>).
            \<forall>k<length (threads \<lparr>shared = q, threads = ?ts[i := t']\<rparr>).
              in_cs (frame (threads \<lparr>shared = q, threads = ?ts[i := t']\<rparr> ! j)) \<and>
              in_cs (frame (threads \<lparr>shared = q, threads = ?ts[i := t']\<rparr> ! k)) \<longrightarrow> j = k"
      using cs' by simp
    show "m (shared \<lparr>shared = q, threads = ?ts[i := t']\<rparr>) =
            (\<exists>j<length (threads \<lparr>shared = q, threads = ?ts[i := t']\<rparr>).
               in_cs (frame (threads \<lparr>shared = q, threads = ?ts[i := t']\<rparr> ! j)))"
      using cs' m' i by auto
    show "\<forall>j<length (threads \<lparr>shared = q, threads = ?ts[i := t']\<rparr>).
            frame_ok (frame (threads \<lparr>shared = q, threads = ?ts[i := t']\<rparr> ! j))
              (theQueue (shared \<lparr>shared = q, threads = ?ts[i := t']\<rparr>))"
      using ok' by simp
    show "(\<Sum>t\<leftarrow>threads \<lparr>shared = q, threads = ?ts[i := t']\<rparr>.
              mset (removed_by t) + mset (in_hand (frame t)))
            + mset (theQueue (shared \<lparr>shared = q, threads = ?ts[i := t']\<rparr>))
          = (\<Sum>t\<leftarrow>threads \<lparr>shared = q, threads = ?ts[i := t']\<rparr>. mset (pushed_by t))"
      using sg sh bal by simp
  qed
  then show ?thesis
    by (simp add: t'_def)
qed

lemma invariant_act:
  assumes "invariant s" and "act a s = Some s'"
  shows "invariant s'"
proof (cases a)
  case (Begin i c)
  with assms(2) have i: "i < length (threads s)" and idle: "idle (frame (threads s ! i))"
    and s': "s' = s\<lparr>threads := (threads s)
           [i := (threads s ! i)\<lparr>frame := enter c, calls := calls (threads s ! i) @ [c]\<rparr>]\<rparr>"
    by (auto split: if_splits)
  from invariant_Begin [OF assms(1) i idle] s' show ?thesis
    by simp
next
  case (Step i)
  with assms(2) obtain f out q where i: "i < length (threads s)"
    and step: "step_frame (frame (threads s ! i)) (shared s) = Some (f, out, q)"
    and s': "s' = \<lparr>shared = q,
            threads = (threads s)
              [i := (threads s ! i)
                 \<lparr>frame := f,
                  rets := rets (threads s ! i) @ (case out of None \<Rightarrow> [] | Some r \<Rightarrow> [r])\<rparr>]\<rparr>"
    by (auto split: if_splits option.splits)
  from invariant_Step [OF assms(1) i step] s' show ?thesis
    by simp
qed

lemma invariant_run_schedule:
  "invariant s \<Longrightarrow> run_schedule as s = Some s' \<Longrightarrow> invariant s'"
proof (induction as arbitrary: s)
  case Nil
  then show ?case by simp
next
  case (Cons a as)
  from Cons.prems(2) obtain s1 where "act a s = Some s1" "run_schedule as s1 = Some s'"
    by (auto split: option.splits)
  with Cons.IH invariant_act [OF Cons.prems(1)] show ?case
    by blast
qed

lemma mset_concat_map: "mset (concat (map g ts)) = (\<Sum>t\<leftarrow>ts. mset (g t))"
  by (induction ts) simp_all

lemma in_hand_quiescent:
  "list_all (\<lambda>t. idle (frame t)) ts \<Longrightarrow> (\<Sum>t\<leftarrow>ts. mset (in_hand (frame t))) = {#}"
  by (induction ts) (simp_all add: idle_outside)

lemma balance:
  assumes "invariant s"
  shows "mset (removed_values s) + (\<Sum>t\<leftarrow>threads s. mset (in_hand (frame t)))
           + mset (theQueue (shared s))
         = mset (pushed_values s)"
proof -
  have "(\<Sum>t\<leftarrow>threads s. mset (removed_by t) + mset (in_hand (frame t)))
          = (\<Sum>t\<leftarrow>threads s. mset (removed_by t)) + (\<Sum>t\<leftarrow>threads s. mset (in_hand (frame t)))"
    by (simp add: sum_list_addf)
  with assms show ?thesis
    by (simp add: invariant_def removed_values_def pushed_values_def mset_concat_map)
qed

lemma no_deadlock:
  assumes "invariant s" and "\<not> quiescent s"
  shows "\<exists>i < length (threads s). act (Step i) s \<noteq> None"
proof (cases "m (shared s)")
  case True
  with assms(1) obtain i where i: "i < length (threads s)" "in_cs (frame (threads s ! i))"
    unfolding invariant_def by blast
  from i(2) have "step_frame (frame (threads s ! i)) (shared s) \<noteq> None"
    by (cases "frame (threads s ! i)") simp_all
  with i(1) show ?thesis
    by (auto split: option.splits)
next
  case False
  from assms(2) obtain i where i: "i < length (threads s)" "\<not> idle (frame (threads s ! i))"
    by (auto simp: quiescent_def list_all_length)
  from assms(1) False i(1) have "\<not> in_cs (frame (threads s ! i))"
    unfolding invariant_def by blast
  with i(2) False have "step_frame (frame (threads s ! i)) (shared s) \<noteq> None"
    by (cases "frame (threads s ! i)") (simp_all add: lock_guard_def)
  with i(1) show ?thesis
    by (auto split: option.splits)
qed

text \<open>
  C4. Let any number of threads share a queue made by the default constructor, each
  entering calls of its choice, their statements interleaved in any order the mutex
  allows. In every state such a run reaches: the values the removes have handed to their
  callers are, counted with multiplicity, among the values given to \<open>push\<close>, so no pushed
  element is handed out twice; if the pushed values are pairwise distinct, so are the
  removed ones; when no thread is inside a call, the removed values together with the
  elements of \<open>theQueue\<close> are exactly the pushed values, so none is lost; a thread that has
  read the front and is about to call \<open>theQueue.pop()\<close> finds the element it read still at
  the front; and at most one thread is past a guard.
\<close>

theorem no_loss_no_duplication:
  assumes "run_schedule sch (initial n) = Some s"
  shows "mset (removed_values s) \<subseteq># mset (pushed_values s) \<and>
         (distinct (pushed_values s) \<longrightarrow> distinct (removed_values s)) \<and>
         (quiescent s \<longrightarrow>
            mset (removed_values s) + mset (theQueue (shared s)) = mset (pushed_values s)) \<and>
         (\<forall>i < length (threads s). \<forall>v. frame (threads s ! i) = Pop_ref_78 v \<longrightarrow>
            theQueue (shared s) \<noteq> [] \<and> hd (theQueue (shared s)) = v) \<and>
         (\<forall>i < length (threads s). \<forall>res. frame (threads s ! i) = Pop_ptr_86 res \<longrightarrow>
            theQueue (shared s) \<noteq> [] \<and> res = make_shared (hd (theQueue (shared s)))) \<and>
         (\<forall>i < length (threads s). \<forall>j < length (threads s).
            in_cs (frame (threads s ! i)) \<and> in_cs (frame (threads s ! j)) \<longrightarrow> i = j)"
proof -
  have inv: "invariant s"
    using invariant_run_schedule [OF invariant_initial assms] .
  have sub: "mset (removed_values s) \<subseteq># mset (pushed_values s)"
    using balance [OF inv] by (metis mset_subset_eq_add_left add.assoc)
  have dist: "distinct (removed_values s)" if "distinct (pushed_values s)"
  proof -
    have "count (mset (removed_values s)) x \<le> 1" for x
    proof -
      have "count (mset (removed_values s)) x \<le> count (mset (pushed_values s)) x"
        using sub by (rule mset_subset_eq_count)
      also have "\<dots> \<le> 1"
        using that by (simp add: distinct_count_atmost_1)
      finally show ?thesis .
    qed
    then show ?thesis
      by (simp add: distinct_count_atmost_1 le_Suc_eq)
  qed
  have quiet: "mset (removed_values s) + mset (theQueue (shared s)) = mset (pushed_values s)"
    if "quiescent s"
  proof -
    from that have "list_all (\<lambda>t. idle (frame t)) (threads s)"
      by (simp add: quiescent_def)
    then have "(\<Sum>t\<leftarrow>threads s. mset (in_hand (frame t))) = {#}"
      by (rule in_hand_quiescent)
    with balance [OF inv] show ?thesis
      by simp
  qed
  have ok: "frame_ok (frame (threads s ! i)) (theQueue (shared s))"
    if "i < length (threads s)" for i
    using inv that unfolding invariant_def by blast
  have ref: "theQueue (shared s) \<noteq> [] \<and> hd (theQueue (shared s)) = v"
    if "i < length (threads s)" "frame (threads s ! i) = Pop_ref_78 v" for i v
    using ok [OF that(1)] that(2) by simp
  have ptr: "theQueue (shared s) \<noteq> [] \<and> res = make_shared (hd (theQueue (shared s)))"
    if "i < length (threads s)" "frame (threads s ! i) = Pop_ptr_86 res" for i res
    using ok [OF that(1)] that(2) by simp
  have excl: "\<forall>i < length (threads s). \<forall>j < length (threads s).
            in_cs (frame (threads s ! i)) \<and> in_cs (frame (threads s ! j)) \<longrightarrow> i = j"
    using inv unfolding invariant_def by blast
  from sub dist quiet ref ptr excl show ?thesis
    by blast
qed

theorem no_loss_no_duplication_witness:
  "run_schedule
     [Begin 0 (Push 1), Begin 1 (Push 2), Step 1, Step 1, Step 1, Step 0, Step 0, Step 0,
      Begin 0 Pop_ptr, Begin 1 (Pop_ref 0), Step 0, Step 0, Step 0, Step 0, Step 0,
      Step 1, Step 1, Step 1, Step 1, Step 1]
     (initial 2)
   = Some \<lparr>shared = \<lparr>m = False, theQueue = []\<rparr>,
           threads =
             [\<lparr>frame = Idle, calls = [Push 1, Pop_ptr],
               rets = [Inr Ret_void, Inr (Ret_ptr (make_shared (2::int)))]\<rparr>,
              \<lparr>frame = Idle, calls = [Push 2, Pop_ref 0],
               rets = [Inr Ret_void, Inr (Ret_ref 1)]\<rparr>]\<rparr> \<and>
   mset [2, 1::int] \<subseteq># mset [1, 2]"
proof -
  let ?s = "\<lparr>shared = \<lparr>m = False, theQueue = []\<rparr>,
           threads =
             [\<lparr>frame = Idle, calls = [Push 1, Pop_ptr],
               rets = [Inr Ret_void, Inr (Ret_ptr (make_shared (2::int)))]\<rparr>,
              \<lparr>frame = Idle, calls = [Push 2, Pop_ref 0],
               rets = [Inr Ret_void, Inr (Ret_ref 1)]\<rparr>]\<rparr>"
  have run: "run_schedule
     [Begin 0 (Push 1), Begin 1 (Push 2), Step 1, Step 1, Step 1, Step 0, Step 0, Step 0,
      Begin 0 Pop_ptr, Begin 1 (Pop_ref 0), Step 0, Step 0, Step 0, Step 0, Step 0,
      Step 1, Step 1, Step 1, Step 1, Step 1]
     (initial 2) = Some ?s"
    by (simp add: initial_def ThreadsafeQueue_default_def lock_guard_def unlock_def
        numeral_2_eq_2)
  have "removed_values ?s = [2, 1]" "pushed_values ?s = [1, 2]"
    by (simp_all add: removed_values_def pushed_values_def removed_by_def pushed_by_def)
  with no_loss_no_duplication [OF run] run show ?thesis
    by simp
qed

lemma guard_waits:
  "run_schedule [Begin 0 (Push 1), Begin 1 (Push (2::int)), Step 1, Step 0] (initial 2) = None"
  by (simp add: initial_def ThreadsafeQueue_default_def lock_guard_def unlock_def
      numeral_2_eq_2)

end
